theory Spec2Isabelle
  imports Main "HOL-Library.Word" "HOL-Library.Multiset"
begin

unbundle bit_operations_syntax

section \<open>Python values used by ledSpeak.py\<close>

text \<open>
  A \<^verbatim>\<open>bytes\<close> object is a list of 8-bit words; iterating it yields the integers
  \<open>uint b\<close>. Python integers are unbounded, hence \<open>int\<close>. A tuple of integers is the
  list of its components, so that tuples of different arity are values of one type and
  can be compared, as Python's \<^verbatim>\<open>==\<close> compares them.
\<close>

type_synonym byte = "8 word"
type_synonym pytuple = "int list"

text \<open>
  \<^verbatim>\<open>struct.error\<close> is raised by \<^verbatim>\<open>struct.pack\<close> for an argument out of the range of its
  format and by \<^verbatim>\<open>struct.unpack_from\<close> for a buffer that is too short;
  \<^verbatim>\<open>ValueError\<close> is raised by the tuple unpacking \<^verbatim>\<open>for r,g,b in pixels\<close> for a tuple
  that does not have three components.
\<close>

datatype error = StructError | ValueError

subsection \<open>struct.pack and struct.unpack_from, big-endian unsigned formats\<close>

text \<open>The \<open>n\<close> bytes of \<open>v\<close>, most significant first.\<close>

fun be_bytes :: "nat \<Rightarrow> int \<Rightarrow> byte list" where
  "be_bytes 0 v = []"
| "be_bytes (Suc n) v = word_of_int (v div 256 ^ n) # be_bytes n v"

definition pack_uint :: "nat \<Rightarrow> int \<Rightarrow> error + byte list" where
  "pack_uint n v = (if 0 \<le> v \<and> v < 256 ^ n then Inr (be_bytes n v) else Inl StructError)"

text \<open>
  \<^verbatim>\<open>struct.pack('>...', v1, ..., vk)\<close> for a format of unsigned fields
  (\<^verbatim>\<open>B\<close> is 1 byte, \<^verbatim>\<open>H\<close> 2 bytes, \<^verbatim>\<open>I\<close> 4 bytes; no padding with \<^verbatim>\<open>>\<close>):
  the argument is the list of (size, value) pairs.
\<close>

fun struct_pack :: "(nat \<times> int) list \<Rightarrow> error + byte list" where
  "struct_pack [] = Inr []"
| "struct_pack ((n, v) # fs) =
     (case pack_uint n v of
        Inl e \<Rightarrow> Inl e
      | Inr bs \<Rightarrow> (case struct_pack fs of Inl e \<Rightarrow> Inl e | Inr rest \<Rightarrow> Inr (bs @ rest)))"

definition be_int :: "byte list \<Rightarrow> int" where
  "be_int bs = foldl (\<lambda>a b. a * 256 + uint b) 0 bs"

text \<open>\<^verbatim>\<open>struct.unpack_from('>II', data, off)\<close>\<close>

definition unpack_from_II :: "byte list \<Rightarrow> nat \<Rightarrow> error + (int \<times> int)" where
  "unpack_from_II data off =
     (if off + 8 \<le> length data
      then Inr (be_int (take 4 (drop off data)), be_int (take 4 (drop (off + 4) data)))
      else Inl StructError)"

text \<open>\<^verbatim>\<open>struct.unpack_from('>HBB', data, off)\<close>\<close>

definition unpack_from_HBB :: "byte list \<Rightarrow> nat \<Rightarrow> error + (int \<times> int \<times> int)" where
  "unpack_from_HBB data off =
     (if off + 4 \<le> length data
      then Inr (be_int (take 2 (drop off data)),
                be_int (take 1 (drop (off + 2) data)),
                be_int (take 1 (drop (off + 3) data)))
      else Inl StructError)"

text \<open>\<^verbatim>\<open>struct.unpack_from('>I', data, off)\<close>: a tuple of one component.\<close>

definition unpack_from_I :: "byte list \<Rightarrow> nat \<Rightarrow> error + pytuple" where
  "unpack_from_I data off =
     (if off + 4 \<le> length data
      then Inr [be_int (take 4 (drop off data))]
      else Inl StructError)"

subsection \<open>List comprehensions whose body may raise\<close>

fun comprehension :: "('a \<Rightarrow> error + 'b) \<Rightarrow> 'a list \<Rightarrow> error + 'b list" where
  "comprehension f [] = Inr []"
| "comprehension f (x # xs) =
     (case f x of
        Inl e \<Rightarrow> Inl e
      | Inr y \<Rightarrow> (case comprehension f xs of Inl e \<Rightarrow> Inl e | Inr ys \<Rightarrow> Inr (y # ys)))"

section \<open>Pixel codecs\<close>

datatype driver = Ws2812 | P9813

subsection \<open>ledSpeakPacketWs2812\<close>

text \<open>One iteration of \<^verbatim>\<open>[struct.pack ('>BBB', g,r,b) for r,g,b in pixels]\<close>.\<close>

fun packPixel_Ws2812 :: "pytuple \<Rightarrow> error + byte list" where
  "packPixel_Ws2812 [r, g, b] = struct_pack [(1, g), (1, r), (1, b)]"
| "packPixel_Ws2812 _ = Inl ValueError"

definition packPixels_Ws2812 :: "pytuple list \<Rightarrow> error + byte list" where
  "packPixels_Ws2812 pixels =
     (case comprehension packPixel_Ws2812 pixels of
        Inl e \<Rightarrow> Inl e
      | Inr packedFrame \<Rightarrow> Inr (concat packedFrame))"

text \<open>
  \<^verbatim>\<open>[(r, g, b) for (g, r, b) in zip(*[iter(packedFrame)]*3)]\<close>: the three arguments of
  \<^verbatim>\<open>zip\<close> are one iterator, so each step takes three consecutive bytes, and the
  iteration ends when fewer than three are left.
\<close>

fun unpackPixels_Ws2812 :: "byte list \<Rightarrow> pytuple list" where
  "unpackPixels_Ws2812 (g # r # b # rest) = [uint r, uint g, uint b] # unpackPixels_Ws2812 rest"
| "unpackPixels_Ws2812 _ = []"

subsection \<open>ledSpeakPacketP9813\<close>

definition pixelHeader :: "int \<Rightarrow> int \<Rightarrow> int \<Rightarrow> int" where
  "pixelHeader r g b =
     (let f_b = 0x30 AND drop_bit 2 b;
          f_g = 0x0C AND drop_bit 4 g;
          f_r = 0x03 AND drop_bit 6 r
      in ((0xff XOR f_b) XOR f_g) XOR f_r)"

fun packPixel_P9813 :: "pytuple \<Rightarrow> error + byte list" where
  "packPixel_P9813 [r, g, b] = struct_pack [(1, pixelHeader r g b), (1, b), (1, g), (1, r)]"
| "packPixel_P9813 _ = Inl ValueError"

definition packPixels_P9813 :: "pytuple list \<Rightarrow> error + byte list" where
  "packPixels_P9813 pixels =
     (case comprehension packPixel_P9813 pixels of
        Inl e \<Rightarrow> Inl e
      | Inr packedFrame \<Rightarrow> Inr (concat packedFrame))"

text \<open>\<^verbatim>\<open>[(h, r, g, b) for (h, g, r, b) in zip(*[iter(packedFrame)]*4)]\<close>\<close>

fun unpackPixels_P9813 :: "byte list \<Rightarrow> pytuple list" where
  "unpackPixels_P9813 (h # g # r # b # rest) =
     [uint h, uint r, uint g, uint b] # unpackPixels_P9813 rest"
| "unpackPixels_P9813 _ = []"

text \<open>Method dispatch on the class of the packet object.\<close>

fun packPixels :: "driver \<Rightarrow> pytuple list \<Rightarrow> error + byte list" where
  "packPixels Ws2812 pixels = packPixels_Ws2812 pixels"
| "packPixels P9813 pixels = packPixels_P9813 pixels"

fun unpackPixels :: "driver \<Rightarrow> byte list \<Rightarrow> pytuple list" where
  "unpackPixels Ws2812 packedFrame = unpackPixels_Ws2812 packedFrame"
| "unpackPixels P9813 packedFrame = unpackPixels_P9813 packedFrame"

section \<open>Checksum\<close>

text \<open>
  Modelled from the spec: \<^verbatim>\<open>binascii.crc32\<close> is a library function whose code is not
  part of the repository. The specification names it as the standard CRC-32 (ISO-HDLC,
  zlib): reflected polynomial \<open>0xEDB88320\<close>, initial register \<open>0xFFFFFFFF\<close>, the
  register complemented at the end, the result an unsigned 32-bit integer.
\<close>

definition crc_bit :: "32 word \<Rightarrow> 32 word" where
  "crc_bit c = (if bit c 0 then drop_bit 1 c XOR 0xEDB88320 else drop_bit 1 c)"

definition crc_byte :: "32 word \<Rightarrow> byte \<Rightarrow> 32 word" where
  "crc_byte c b = (crc_bit ^^ 8) (c XOR ucast b)"

definition crc32 :: "byte list \<Rightarrow> 32 word" where
  "crc32 data = NOT (foldl crc_byte 0xFFFFFFFF data)"

definition calcCrc :: "byte list \<Rightarrow> int" where
  "calcCrc data = uint (crc32 data)"

section \<open>ledSpeakPacket\<close>

text \<open>
  The packet object. \<open>flags\<close> and \<open>seq\<close> are set by the constructor; the other
  attributes do not exist until \<^verbatim>\<open>unpack\<close> assigns them, hence \<open>None\<close> before.
  \<open>payloadFbLen\<close> is assigned the tuple that \<^verbatim>\<open>struct.unpack_from\<close> returns.
\<close>

record ledSpeakPacket =
  flags :: int
  seq :: int
  rcvdLen :: "int option"
  payloadLen :: "int option"
  payloadCrc :: "int option"
  payloadSeq :: "int option"
  msgType :: "int option"
  payloadFbLen :: "pytuple option"
  fb :: "pytuple list option"
  localCrc :: "int option"

definition init :: ledSpeakPacket where
  "init = \<lparr>flags = 0, seq = 0, rcvdLen = None, payloadLen = None, payloadCrc = None,
            payloadSeq = None, msgType = None, payloadFbLen = None, fb = None,
            localCrc = None\<rparr>"

definition FB_RAW :: int where
  "FB_RAW = 0x10"

text \<open>
  \<^verbatim>\<open>packRawFrame\<close> returns the packet and the updated object; an exception leaves the
  object as it was, since the counter is incremented last.
\<close>

definition packRawFrame ::
  "driver \<Rightarrow> ledSpeakPacket \<Rightarrow> pytuple list \<Rightarrow> error + (byte list \<times> ledSpeakPacket)" where
  "packRawFrame drv self pixels =
     (case packPixels drv pixels of
        Inl e \<Rightarrow> Inl e
      | Inr pixelData \<Rightarrow>
     (case struct_pack [(4, int (length pixelData))] of
        Inl e \<Rightarrow> Inl e
      | Inr lenBytes \<Rightarrow>
     (let rawFrameBuffer = lenBytes @ pixelData in
      case struct_pack [(2, seq self), (1, flags self), (1, FB_RAW)] of
        Inl e \<Rightarrow> Inl e
      | Inr hdr \<Rightarrow>
     (let payLoad = hdr @ rawFrameBuffer in
      case struct_pack [(4, int (length payLoad)), (4, calcCrc payLoad)] of
        Inl e \<Rightarrow> Inl e
      | Inr lenCrc \<Rightarrow>
     (let packetData = lenCrc @ payLoad in
      Inr (packetData, self\<lparr>seq := seq self + 1\<rparr>))))))"

text \<open>
  \<^verbatim>\<open>unpack\<close> assigns the attributes one statement after the other, so an exception
  leaves the object with the attributes assigned before it: \<open>Inl\<close> carries the error
  and the object at that point.
\<close>

definition unpack ::
  "driver \<Rightarrow> ledSpeakPacket \<Rightarrow> byte list \<Rightarrow> (error \<times> ledSpeakPacket) + ledSpeakPacket" where
  "unpack drv self packetData =
     (let s1 = self\<lparr>rcvdLen := Some (int (length packetData))\<rparr> in
      case unpack_from_II packetData 0 of
        Inl e \<Rightarrow> Inl (e, s1)
      | Inr (l, c) \<Rightarrow>
     (let s2 = s1\<lparr>payloadLen := Some l, payloadCrc := Some c\<rparr> in
      case unpack_from_HBB packetData 8 of
        Inl e \<Rightarrow> Inl (e, s2)
      | Inr (q, f, t) \<Rightarrow>
     (let s3 = s2\<lparr>payloadSeq := Some q, flags := f, msgType := Some t\<rparr> in
      case unpack_from_I packetData 12 of
        Inl e \<Rightarrow> Inl (e, s3)
      | Inr n \<Rightarrow>
     (let s4 = s3\<lparr>payloadFbLen := Some n\<rparr>;
          s5 = s4\<lparr>fb := Some (unpackPixels drv (drop 16 packetData))\<rparr>
      in Inr (s5\<lparr>localCrc := Some (calcCrc (drop 8 packetData))\<rparr>)))))"

text \<open>
  \<open>n\<close> consecutive calls of \<^verbatim>\<open>packRawFrame\<close> on one object with the same pixels, as
  the loop of the \<^verbatim>\<open>simple\<close> command makes them; the first exception ends the run.
\<close>

fun packRawFrames ::
  "driver \<Rightarrow> nat \<Rightarrow> ledSpeakPacket \<Rightarrow> pytuple list \<Rightarrow> error + (byte list list \<times> ledSpeakPacket)" where
  "packRawFrames drv 0 self pixels = Inr ([], self)"
| "packRawFrames drv (Suc n) self pixels =
     (case packRawFrame drv self pixels of
        Inl e \<Rightarrow> Inl e
      | Inr (p, self') \<Rightarrow>
          (case packRawFrames drv n self' pixels of
             Inl e \<Rightarrow> Inl e
           | Inr (ps, self'') \<Rightarrow> Inr (p # ps, self'')))"

text \<open>Flipping bit \<open>k\<close> of the byte at offset \<open>i\<close> of a buffer.\<close>

definition flip_bit_at :: "byte list \<Rightarrow> nat \<Rightarrow> nat \<Rightarrow> byte list" where
  "flip_bit_at data i k = data[i := (data ! i) XOR push_bit k 1]"

section \<open>Notions used to state the properties\<close>

text \<open>A pixel: a tuple of three channel values, each an 8-bit value.\<close>

definition is_pixel :: "pytuple \<Rightarrow> bool" where
  "is_pixel p = (length p = 3 \<and> (\<forall>c \<in> set p. 0 \<le> c \<and> c \<le> 255))"

text \<open>The expression \<^verbatim>\<open>unpackPixels(packPixels(pixels))\<close>.\<close>

definition roundTrip :: "driver \<Rightarrow> pytuple list \<Rightarrow> error + pytuple list" where
  "roundTrip drv pixels =
     (case packPixels drv pixels of
        Inl e \<Rightarrow> Inl e
      | Inr packedFrame \<Rightarrow> Inr (unpackPixels drv packedFrame))"

text \<open>The bytes of one pixel on the wire, as the two codecs lay them out.\<close>

definition wire_Ws2812 :: "pytuple \<Rightarrow> byte list" where
  "wire_Ws2812 p = [word_of_int (p ! 1), word_of_int (p ! 0), word_of_int (p ! 2)]"

definition wire_P9813 :: "pytuple \<Rightarrow> byte list" where
  "wire_P9813 p =
     [word_of_int (pixelHeader (p ! 0) (p ! 1) (p ! 2)),
      word_of_int (p ! 2), word_of_int (p ! 1), word_of_int (p ! 0)]"

text \<open>
  The P9813 header byte in the words of the specification:
  \<^verbatim>\<open>0xFF XOR (0x30 & (B >> 2)) XOR (0x0C & (G >> 4)) XOR (0x03 & (R >> 6))\<close>.
\<close>

definition header_spec :: "int \<Rightarrow> int \<Rightarrow> int \<Rightarrow> int" where
  "header_spec R G B =
     0xFF XOR (0x30 AND drop_bit 2 B) XOR (0x0C AND drop_bit 4 G) XOR (0x03 AND drop_bit 6 R)"

text \<open>
  A decoded P9813 tuple \<open>t\<close> belongs to the pixel \<open>p\<close>: four components, the first the
  header byte of \<open>p\<close>, the other three the channel values of \<open>p\<close> in some order.
\<close>

definition decoded_P9813 :: "pytuple \<Rightarrow> pytuple \<Rightarrow> bool" where
  "decoded_P9813 p t =
     (length t = 4 \<and> hd t = pixelHeader (p ! 0) (p ! 1) (p ! 2) \<and> mset (tl t) = mset p)"

text \<open>
  The layout of a raw-frame packet for sequence number \<open>q\<close>, flags \<open>f\<close> and packed
  pixel data \<open>pd\<close>: the payload, and the packet with its length and checksum header.
\<close>

definition payLoad_of :: "int \<Rightarrow> int \<Rightarrow> byte list \<Rightarrow> byte list" where
  "payLoad_of q f pd =
     be_bytes 2 q @ be_bytes 1 f @ be_bytes 1 FB_RAW @ be_bytes 4 (int (length pd)) @ pd"

definition packet_of :: "int \<Rightarrow> int \<Rightarrow> byte list \<Rightarrow> byte list" where
  "packet_of q f pd =
     be_bytes 4 (int (length (payLoad_of q f pd))) @ be_bytes 4 (calcCrc (payLoad_of q f pd))
       @ payLoad_of q f pd"

section \<open>Auxiliary facts\<close>

subsection \<open>Pixels, struct and comprehensions\<close>

lemma is_pixelE:
  assumes "is_pixel p"
  obtains r g b where "p = [r, g, b]" "0 \<le> r" "r \<le> 255" "0 \<le> g" "g \<le> 255" "0 \<le> b" "b \<le> 255"
proof -
  from assms have len: "length p = 3" and rng: "\<forall>c \<in> set p. 0 \<le> c \<and> c \<le> 255"
    by (simp_all add: is_pixel_def)
  from len obtain r g b where p: "p = [r, g, b]"
    by (cases p; simp; case_tac list; simp; case_tac lista; simp)
  with rng show ?thesis using that by simp
qed

lemma length_be_bytes [simp]: "length (be_bytes n v) = n"
  by (induction n) simp_all

lemma uint_byte: "uint (word_of_int v :: byte) = v mod 256"
  by (simp add: uint_word_of_int take_bit_eq_mod)

lemma foldl_be_bytes:
  "foldl (\<lambda>a b. a * 256 + uint (b :: byte)) a (be_bytes n v) = a * 256 ^ n + v mod 256 ^ n"
proof (induction n arbitrary: a)
  case 0
  show ?case by simp
next
  case (Suc n)
  let ?F = "\<lambda>a b. a * 256 + uint (b :: byte)"
  have eq: "v mod (256 ^ n * 256) = 256 ^ n * (v div 256 ^ n mod 256) + v mod 256 ^ n"
    by (rule zmod_zmult2_eq) simp
  have "foldl ?F a (be_bytes (Suc n) v) = foldl ?F (a * 256 + v div 256 ^ n mod 256) (be_bytes n v)"
    by (simp add: uint_byte)
  also have "\<dots> = (a * 256 + v div 256 ^ n mod 256) * 256 ^ n + v mod 256 ^ n"
    by (rule Suc)
  also have "\<dots> = a * 256 ^ Suc n + v mod 256 ^ Suc n"
    using eq by (simp add: algebra_simps)
  finally show ?case .
qed

lemma be_int_be_bytes: "0 \<le> v \<Longrightarrow> v < 256 ^ n \<Longrightarrow> be_int (be_bytes n v) = v"
  by (simp add: be_int_def foldl_be_bytes)

lemma be_int_single: "be_int [b] = uint b"
  by (simp add: be_int_def)

lemma comprehension_map:
  "(\<And>x. x \<in> set xs \<Longrightarrow> f x = Inr (g x)) \<Longrightarrow> comprehension f xs = Inr (map g xs)"
  by (induction xs) simp_all

lemma pack_uint_ok: "0 \<le> v \<Longrightarrow> v < 256 ^ n \<Longrightarrow> pack_uint n v = Inr (be_bytes n v)"
  by (simp add: pack_uint_def)

lemma pack_uint_byte: "0 \<le> v \<Longrightarrow> v \<le> 255 \<Longrightarrow> pack_uint (Suc 0) v = Inr [word_of_int v]"
  by (simp add: pack_uint_def)

subsection \<open>The WS2812 codec\<close>

lemma packPixel_Ws2812_ok: "is_pixel p \<Longrightarrow> packPixel_Ws2812 p = Inr (wire_Ws2812 p)"
  by (erule is_pixelE) (simp add: pack_uint_byte wire_Ws2812_def)

lemma packPixels_Ws2812_ok:
  "\<forall>p \<in> set pixels. is_pixel p \<Longrightarrow>
   packPixels_Ws2812 pixels = Inr (concat (map wire_Ws2812 pixels))"
  by (simp add: packPixels_Ws2812_def comprehension_map [where g = wire_Ws2812] packPixel_Ws2812_ok)

lemma unpack_wire_Ws2812:
  "\<forall>p \<in> set pixels. is_pixel p \<Longrightarrow>
   unpackPixels_Ws2812 (concat (map wire_Ws2812 pixels)) = pixels"
proof (induction pixels)
  case Nil show ?case by simp
next
  case (Cons p ps)
  then have "is_pixel p" by simp
  then show ?case using Cons
    by (elim is_pixelE) (simp add: wire_Ws2812_def uint_byte)
qed

lemma length_wire_Ws2812: "length (concat (map wire_Ws2812 pixels)) = 3 * length pixels"
  by (induction pixels) (simp_all add: wire_Ws2812_def)

lemma uint_wire_Ws2812:
  "\<forall>p \<in> set pixels. is_pixel p \<Longrightarrow>
   map uint (concat (map wire_Ws2812 pixels)) = concat (map (\<lambda>p. [p ! 1, p ! 0, p ! 2]) pixels)"
proof (induction pixels)
  case Nil show ?case by simp
next
  case (Cons p ps)
  then have "is_pixel p" by simp
  then show ?case using Cons
    by (elim is_pixelE) (simp add: wire_Ws2812_def uint_byte)
qed

subsection \<open>The P9813 codec\<close>

lemma pixelHeader_range: "0 \<le> pixelHeader r g b \<and> pixelHeader r g b \<le> 255"
proof -
  define fb :: int where "fb = 0x30 AND drop_bit 2 b"
  define fg :: int where "fg = 0x0C AND drop_bit 4 g"
  define fr :: int where "fr = 0x03 AND drop_bit 6 r"
  have b: "0 \<le> fb" "fb < 2 ^ 8" using AND_upper1 [of "0x30" "drop_bit 2 b"] by (simp_all add: fb_def)
  have g: "0 \<le> fg" "fg < 2 ^ 8" using AND_upper1 [of "0x0C" "drop_bit 4 g"] by (simp_all add: fg_def)
  have r: "0 \<le> fr" "fr < 2 ^ 8" using AND_upper1 [of "0x03" "drop_bit 6 r"] by (simp_all add: fr_def)
  have 1: "0 \<le> 0xff XOR fb" "0xff XOR fb < 2 ^ 8"
    using b XOR_upper [of "0xff" 8 fb] by simp_all
  have 2: "0 \<le> (0xff XOR fb) XOR fg" "(0xff XOR fb) XOR fg < 2 ^ 8"
    using 1 g XOR_upper [of "0xff XOR fb" 8 fg] by simp_all
  have 3: "0 \<le> ((0xff XOR fb) XOR fg) XOR fr" "((0xff XOR fb) XOR fg) XOR fr < 2 ^ 8"
    using 2 r XOR_upper [of "(0xff XOR fb) XOR fg" 8 fr] by simp_all
  have "pixelHeader r g b = ((0xff XOR fb) XOR fg) XOR fr"
    by (simp add: pixelHeader_def fb_def fg_def fr_def)
  with 3 show ?thesis by simp
qed

lemma pixelHeader_spec: "pixelHeader r g b = header_spec r g b"
  by (simp add: pixelHeader_def header_spec_def xor.assoc)

lemma packPixel_P9813_ok: "is_pixel p \<Longrightarrow> packPixel_P9813 p = Inr (wire_P9813 p)"
  by (erule is_pixelE) (simp add: pack_uint_byte wire_P9813_def pixelHeader_range)

lemma packPixels_P9813_ok:
  "\<forall>p \<in> set pixels. is_pixel p \<Longrightarrow>
   packPixels_P9813 pixels = Inr (concat (map wire_P9813 pixels))"
  by (simp add: packPixels_P9813_def comprehension_map [where g = wire_P9813] packPixel_P9813_ok)

lemma length_wire_P9813: "length (concat (map wire_P9813 pixels)) = 4 * length pixels"
  by (induction pixels) (simp_all add: wire_P9813_def)

lemma pixelHeader_mod: "pixelHeader r g b mod 256 = pixelHeader r g b"
  using pixelHeader_range [of r g b] by simp

lemma uint_wire_P9813_pixel:
  "is_pixel p \<Longrightarrow> map uint (wire_P9813 p) = [pixelHeader (p ! 0) (p ! 1) (p ! 2), p ! 2, p ! 1, p ! 0]"
  by (erule is_pixelE) (simp add: wire_P9813_def uint_byte pixelHeader_mod)

lemma uint_wire_P9813:
  "\<forall>p \<in> set pixels. is_pixel p \<Longrightarrow>
   map uint (concat (map wire_P9813 pixels)) =
   concat (map (\<lambda>p. [pixelHeader (p ! 0) (p ! 1) (p ! 2), p ! 2, p ! 1, p ! 0]) pixels)"
  by (induction pixels) (simp_all add: uint_wire_P9813_pixel)

lemma unpack_wire_P9813_pixel:
  "is_pixel p \<Longrightarrow>
   unpackPixels_P9813 (wire_P9813 p @ rest) =
   [pixelHeader (p ! 0) (p ! 1) (p ! 2), p ! 1, p ! 2, p ! 0] # unpackPixels_P9813 rest"
  by (erule is_pixelE) (simp add: wire_P9813_def uint_byte pixelHeader_mod)

lemma decoded_P9813_pixel:
  "is_pixel p \<Longrightarrow> decoded_P9813 p [pixelHeader (p ! 0) (p ! 1) (p ! 2), p ! 1, p ! 2, p ! 0]"
  by (erule is_pixelE) (simp add: decoded_P9813_def)

lemma unpack_wire_P9813:
  "\<forall>p \<in> set pixels. is_pixel p \<Longrightarrow>
   list_all2 decoded_P9813 pixels (unpackPixels_P9813 (concat (map wire_P9813 pixels)))"
proof (induction pixels)
  case Nil show ?case by simp
next
  case (Cons p ps)
  then have p: "is_pixel p" by simp
  show ?case
    using Cons unpack_wire_P9813_pixel [OF p] decoded_P9813_pixel [OF p] by simp
qed

subsection \<open>CRC-32 detects a changed byte\<close>

lemma xor_cancel_right: "(a :: 'a :: len word) XOR x = b XOR x \<Longrightarrow> a = b"
proof -
  assume "a XOR x = b XOR x"
  then have "(a XOR x) XOR x = (b XOR x) XOR x" by simp
  then show "a = b" by (simp add: xor.assoc)
qed

lemma xor_cancel_left: "(x :: 'a :: len word) XOR a = x XOR b \<Longrightarrow> a = b"
  using xor_cancel_right [of a x b] by (simp add: xor.commute)

lemma bit31_crc_bit: "bit (crc_bit c) 31 = bit c 0"
  by (auto simp: crc_bit_def bit_simps dest: bit_imp_le_length)

lemma crc_bit_inj: "crc_bit c = crc_bit d \<Longrightarrow> c = d"
proof -
  assume eq: "crc_bit c = crc_bit d"
  then have b0: "bit c 0 = bit d 0"
    using bit31_crc_bit [of c] bit31_crc_bit [of d] by simp
  with eq have dr: "drop_bit 1 c = drop_bit 1 d"
    by (auto simp: crc_bit_def split: if_splits dest: xor_cancel_right)
  show "c = d"
  proof (rule bit_eqI)
    fix n
    show "bit c n = bit d n"
    proof (cases n)
      case 0 with b0 show ?thesis by simp
    next
      case (Suc m)
      have "bit (drop_bit 1 c) m = bit (drop_bit 1 d) m" using dr by simp
      then show ?thesis using Suc by (simp add: bit_drop_bit_eq)
    qed
  qed
qed

lemma crc_bit_funpow_inj: "(crc_bit ^^ n) c = (crc_bit ^^ n) d \<Longrightarrow> c = d"
  by (induction n) (auto dest: crc_bit_inj)

lemma ucast_byte_inj: "(ucast (b :: byte) :: 32 word) = ucast b' \<Longrightarrow> b = b'"
proof (rule bit_word_eqI)
  fix n
  assume eq: "(ucast b :: 32 word) = ucast b'" and n: "n < LENGTH(8)"
  then have "bit (ucast b :: 32 word) n = bit (ucast b' :: 32 word) n" by simp
  with n show "bit b n = bit b' n" by (simp add: bit_ucast_iff)
qed

lemma crc_byte_inj_state: "crc_byte c b = crc_byte d b \<Longrightarrow> c = d"
  by (auto simp: crc_byte_def dest!: crc_bit_funpow_inj xor_cancel_right)

lemma crc_byte_inj_byte: "crc_byte c b = crc_byte c b' \<Longrightarrow> b = b'"
  by (auto simp: crc_byte_def dest!: crc_bit_funpow_inj xor_cancel_left ucast_byte_inj)

lemma foldl_crc_byte_inj: "foldl crc_byte c xs = foldl crc_byte d xs \<Longrightarrow> c = d"
  by (induction xs arbitrary: c d) (auto dest: crc_byte_inj_state)

lemma crc32_single_byte:
  "crc32 (pre @ b # suf) = crc32 (pre @ b' # suf) \<Longrightarrow> b = b'"
  by (auto simp: crc32_def dest!: foldl_crc_byte_inj crc_byte_inj_byte)

lemma flipped_byte_differs: "k < 8 \<Longrightarrow> (x :: byte) XOR push_bit k 1 \<noteq> x"
proof
  assume k: "k < 8" and "x XOR push_bit k 1 = x"
  then have "x XOR (x XOR push_bit k 1) = x XOR x" by simp
  then have "(push_bit k 1 :: byte) = 0" by (simp add: xor.assoc [symmetric])
  moreover have "bit (push_bit k 1 :: byte) k"
    using k by (simp add: bit_exp_iff)
  ultimately show False using k by simp
qed

lemma crc32_flip:
  assumes "i < length data" "k < 8"
  shows "crc32 (flip_bit_at data i k) \<noteq> crc32 data"
proof
  assume eq: "crc32 (flip_bit_at data i k) = crc32 data"
  have 1: "flip_bit_at data i k = take i data @ (data ! i XOR push_bit k 1) # drop (Suc i) data"
    using assms by (simp add: flip_bit_at_def upd_conv_take_nth_drop)
  have 2: "data = take i data @ data ! i # drop (Suc i) data"
    using assms by (simp add: id_take_nth_drop)
  from eq have "crc32 (take i data @ (data ! i XOR push_bit k 1) # drop (Suc i) data)
     = crc32 (take i data @ data ! i # drop (Suc i) data)"
    using 1 2 by simp
  then have "data ! i XOR push_bit k 1 = data ! i" by (rule crc32_single_byte)
  with flipped_byte_differs [OF assms(2)] show False by simp
qed

subsection \<open>Building and parsing packets\<close>

lemma calcCrc_range: "0 \<le> calcCrc d \<and> calcCrc d < 256 ^ 4"
  using uint_lt2p [of "crc32 d"] by (simp add: calcCrc_def)

lemma calcCrc_inj: "calcCrc d = calcCrc d' \<Longrightarrow> crc32 d = crc32 d'"
  by (simp add: calcCrc_def word_uint_eq_iff)

lemma struct_pack_error: "struct_pack fs = Inl e \<Longrightarrow> e = StructError"
  by (induction fs arbitrary: e)
     (auto simp: pack_uint_def split: sum.splits if_splits)

lemma length_struct_pack: "struct_pack fs = Inr bs \<Longrightarrow> length bs = sum_list (map fst fs)"
  by (induction fs arbitrary: bs)
     (auto simp: pack_uint_def split: sum.splits if_splits)

lemma length_payLoad_of [simp]: "length (payLoad_of q f pd) = 8 + length pd"
  by (simp add: payLoad_of_def)

lemma length_packet_of [simp]: "length (packet_of q f pd) = 16 + length pd"
  by (simp add: packet_of_def)

lemma drop8_packet_of: "drop 8 (packet_of q f pd) = payLoad_of q f pd"
  by (simp add: packet_of_def)

lemma packRawFrame_ok:
  assumes "packPixels drv pixels = Inr pd" and "int (length pd) + 8 < 2 ^ 32"
    and "0 \<le> seq self" "seq self < 65536" "0 \<le> flags self" "flags self \<le> 255"
  shows "packRawFrame drv self pixels =
         Inr (packet_of (seq self) (flags self) pd, self\<lparr>seq := seq self + 1\<rparr>)"
proof -
  have 1: "struct_pack [(4, int (length pd))] = Inr (be_bytes 4 (int (length pd)))"
    using assms(2) by (simp add: pack_uint_ok)
  have 2: "struct_pack [(2, seq self), (1, flags self), (1, FB_RAW)] =
           Inr (be_bytes 2 (seq self) @ be_bytes 1 (flags self) @ be_bytes 1 FB_RAW)"
    using assms(3-6) by (simp add: pack_uint_ok FB_RAW_def)
  have 3: "struct_pack [(4, int (length (payLoad_of q f pd))), (4, calcCrc (payLoad_of q f pd))] =
           Inr (be_bytes 4 (int (length (payLoad_of q f pd))) @ be_bytes 4 (calcCrc (payLoad_of q f pd)))"
    for q f
    using assms(2) calcCrc_range [of "payLoad_of q f pd"] by (simp add: pack_uint_ok)
  have 4: "(be_bytes 2 (seq self) @ be_bytes 1 (flags self) @ be_bytes 1 FB_RAW)
             @ be_bytes 4 (int (length pd)) @ pd = payLoad_of (seq self) (flags self) pd"
    by (simp add: payLoad_of_def)
  show ?thesis
    unfolding packRawFrame_def assms(1) 1 2 Let_def sum.case 4 3
    by (simp add: packet_of_def)
qed

lemma packRawFrame_seq_overflow:
  assumes "packPixels drv pixels = Inr pd" and "int (length pd) + 8 < 2 ^ 32"
    and "65536 \<le> seq self"
  shows "packRawFrame drv self pixels = Inl StructError"
proof -
  have 1: "struct_pack [(4, int (length pd))] = Inr (be_bytes 4 (int (length pd)))"
    using assms(2) by (simp add: pack_uint_ok)
  have 2: "struct_pack [(2, seq self), (1, flags self), (1, FB_RAW)] = Inl StructError"
    using assms(3) by (simp add: pack_uint_def)
  show ?thesis
    unfolding packRawFrame_def assms(1) 1 2 Let_def sum.case by simp
qed

lemma packRawFrame_too_long:
  assumes "packPixels drv pixels = Inr pd" and "2 ^ 32 \<le> int (length pd) + 8"
  shows "packRawFrame drv self pixels = Inl StructError"
  using assms(2)
  by (auto simp: packRawFrame_def assms(1) Let_def pack_uint_def split: sum.splits if_splits)

lemma unpack_ok:
  assumes "16 \<le> length d"
  shows "unpack drv self d =
    Inr (self\<lparr>flags := uint (d ! 10),
              rcvdLen := Some (int (length d)),
              payloadLen := Some (be_int (take 4 d)),
              payloadCrc := Some (be_int (take 4 (drop 4 d))),
              payloadSeq := Some (be_int (take 2 (drop 8 d))),
              msgType := Some (uint (d ! 11)),
              payloadFbLen := Some [be_int (take 4 (drop 12 d))],
              fb := Some (unpackPixels drv (drop 16 d)),
              localCrc := Some (calcCrc (drop 8 d))\<rparr>)"
proof -
  have a: "take (Suc 0) (drop 10 d) = [d ! 10]" "take (Suc 0) (drop 11 d) = [d ! 11]"
    using assms by (simp_all add: take_Suc_conv_app_nth)
  show ?thesis
    using assms
    by (simp add: unpack_def unpack_from_II_def unpack_from_HBB_def unpack_from_I_def a be_int_single)
qed

lemma be_int_2: "be_int [a, b] = uint a * 2 ^ 8 + uint b"
  by (simp add: be_int_def)

lemma be_int_4:
  "be_int [a, b, c, e] = uint a * 2 ^ 24 + uint b * 2 ^ 16 + uint c * 2 ^ 8 + uint e"
  by (simp add: be_int_def)

lemma drop_nth_Cons: "k < length d \<Longrightarrow> drop k d = d ! k # drop (Suc k) d"
  by (simp add: Cons_nth_drop_Suc)

lemma take2_drop:
  assumes "k + 2 \<le> length d"
  shows "take 2 (drop k d) = [d ! k, d ! Suc k]"
proof -
  have "drop k d = d ! k # d ! Suc k # drop (Suc (Suc k)) d"
    using assms drop_nth_Cons [of k d] drop_nth_Cons [of "Suc k" d] by simp
  then show ?thesis by simp
qed

lemma take4_drop:
  assumes "k + 4 \<le> length d"
  shows "take 4 (drop k d) = [d ! k, d ! Suc k, d ! Suc (Suc k), d ! Suc (Suc (Suc k))]"
proof -
  have "drop k d = d ! k # d ! Suc k # d ! Suc (Suc k) # d ! Suc (Suc (Suc k))
          # drop (Suc (Suc (Suc (Suc k)))) d"
    using assms drop_nth_Cons [of k d] drop_nth_Cons [of "Suc k" d]
      drop_nth_Cons [of "Suc (Suc k)" d] drop_nth_Cons [of "Suc (Suc (Suc k))" d]
    by simp
  then show ?thesis by simp
qed

lemma unpack_short:
  assumes "length d < 16"
  shows "\<exists>s'. unpack drv self d = Inl (StructError, s') \<and> fb s' = fb self
     \<and> localCrc s' = localCrc self \<and> seq s' = seq self"
  using assms
  by (auto simp: unpack_def unpack_from_II_def unpack_from_HBB_def unpack_from_I_def Let_def)

lemma unpack_packet_of:
  assumes "int (length pd) + 8 < 2 ^ 32" "0 \<le> q" "q < 65536" "0 \<le> f" "f \<le> 255"
  shows "unpack drv rcv (packet_of q f pd) =
    Inr (rcv\<lparr>flags := f,
             rcvdLen := Some (int (length pd) + 16),
             payloadLen := Some (int (length pd) + 8),
             payloadCrc := Some (calcCrc (payLoad_of q f pd)),
             payloadSeq := Some q,
             msgType := Some FB_RAW,
             payloadFbLen := Some [int (length pd)],
             fb := Some (unpackPixels drv pd),
             localCrc := Some (calcCrc (payLoad_of q f pd))\<rparr>)"
proof -
  let ?P = "payLoad_of q f pd"
  let ?d = "packet_of q f pd"
  have len: "16 \<le> length ?d" by simp
  have 1: "take 4 ?d = be_bytes 4 (int (length ?P))"
    by (simp add: packet_of_def)
  have 2: "take 4 (drop 4 ?d) = be_bytes 4 (calcCrc ?P)"
    by (simp add: packet_of_def)
  have 3: "take 2 (drop 8 ?d) = be_bytes 2 q" "take 2 ?P = be_bytes 2 q"
    by (simp_all add: packet_of_def payLoad_of_def)
  have 4: "take 1 (drop 10 ?d) = be_bytes 1 f" "take 1 (drop 11 ?d) = be_bytes 1 FB_RAW"
    by (simp_all add: packet_of_def payLoad_of_def)
  have 5: "take 4 (drop 12 ?d) = be_bytes 4 (int (length pd))"
    by (simp add: packet_of_def payLoad_of_def)
  have 6: "drop 16 ?d = pd" "drop 8 ?d = ?P"
    by (simp_all add: packet_of_def payLoad_of_def)
  have 7: "take 1 (drop 10 ?d) = [?d ! 10]" "take 1 (drop 11 ?d) = [?d ! 11]"
    using len by (simp_all add: take_Suc_conv_app_nth del: length_packet_of)
  have 8: "uint (?d ! 10) = be_int (be_bytes 1 f)" "uint (?d ! 11) = be_int (be_bytes 1 FB_RAW)"
    using 4 7 by (simp_all add: be_int_single)
  have 9: "be_int (be_bytes 4 (int (length ?P))) = int (length pd) + 8"
    "be_int (be_bytes 4 (calcCrc ?P)) = calcCrc ?P"
    "be_int (be_bytes 2 q) = q" "be_int (be_bytes 1 f) = f"
    "be_int (be_bytes 1 FB_RAW) = FB_RAW"
    "be_int (be_bytes 4 (int (length pd))) = int (length pd)"
    using assms calcCrc_range [of ?P]
    by (simp_all add: be_int_be_bytes FB_RAW_def be_int_single uint_byte)
  show ?thesis
    unfolding unpack_ok [OF len] 1 2 3 5 6 8 9 by simp
qed

lemma packPixels_ok:
  assumes "\<forall>p \<in> set pixels. is_pixel p"
  shows "packPixels Ws2812 pixels = Inr (concat (map wire_Ws2812 pixels))"
    and "packPixels P9813 pixels = Inr (concat (map wire_P9813 pixels))"
  using assms by (simp_all add: packPixels_Ws2812_ok packPixels_P9813_ok)

lemma packRawFrames_ok:
  assumes "packPixels drv pixels = Inr pd" and "int (length pd) + 8 < 2 ^ 32"
    and "0 \<le> flags self" "flags self \<le> 255" "0 \<le> seq self" "seq self + int n \<le> 65536"
  shows "packRawFrames drv n self pixels =
         Inr (map (\<lambda>i. packet_of (seq self + int i) (flags self) pd) [0..<n],
              self\<lparr>seq := seq self + int n\<rparr>)"
  using assms(3-6)
proof (induction n arbitrary: self)
  case 0
  show ?case by simp
next
  case (Suc n)
  let ?s = "self\<lparr>seq := seq self + 1\<rparr>"
  have 1: "packRawFrame drv self pixels = Inr (packet_of (seq self) (flags self) pd, ?s)"
    using Suc.prems by (intro packRawFrame_ok assms(1,2)) simp_all
  have 2: "packRawFrames drv n ?s pixels =
         Inr (map (\<lambda>i. packet_of (seq ?s + int i) (flags ?s) pd) [0..<n],
              ?s\<lparr>seq := seq ?s + int n\<rparr>)"
    using Suc.prems by (intro Suc.IH) simp_all
  have 3: "[0..<Suc n] = 0 # map Suc [0..<n]"
    by (simp add: upt_conv_Cons map_Suc_upt del: upt_Suc)
  show ?case
    unfolding packRawFrames.simps 1 sum.case prod.case 2 3
    by (simp add: o_def algebra_simps)
qed

lemma seq_of_packet_of:
  "0 \<le> q \<Longrightarrow> q < 65536 \<Longrightarrow> be_int (take 2 (drop 8 (packet_of q f pd))) = q"
  by (simp add: packet_of_def payLoad_of_def be_int_be_bytes)

lemma frame_pixels: "\<forall>p \<in> set [[255, 0, 0], [0, 255, 0], [0, 0, 255]]. is_pixel p"
  by (simp add: is_pixel_def)

lemma packRawFrame_inv:
  assumes "packRawFrame drv self pixels = Inr (pkt, self')"
  shows "\<exists>payLoad. pkt = be_bytes 4 (int (length payLoad)) @ be_bytes 4 (calcCrc payLoad) @ payLoad
           \<and> 8 \<le> length payLoad"
  using assms
  by (auto simp: packRawFrame_def Let_def pack_uint_def split: sum.splits if_splits)

lemma flip_bit_at_append:
  "length hd8 \<le> i \<Longrightarrow> flip_bit_at (hd8 @ body) i k = hd8 @ flip_bit_at body (i - length hd8) k"
  by (simp add: flip_bit_at_def list_update_append nth_append)

lemma length_flip_bit_at [simp]: "length (flip_bit_at d i k) = length d"
  by (simp add: flip_bit_at_def)

lemma replicate_pixels_too_long:
  assumes "2 ^ 32 \<le> 3 * int n + 8"
  shows "packRawFrame Ws2812 self (replicate n [0, 0, 0]) = Inl StructError"
proof -
  let ?px = "replicate n [0, 0, 0 :: int]"
  have px: "\<forall>p \<in> set ?px. is_pixel p" by (simp add: is_pixel_def)
  have pd: "packPixels Ws2812 ?px = Inr (concat (map wire_Ws2812 ?px))"
    by (rule packPixels_ok(1) [OF px])
  have "length (concat (map wire_Ws2812 ?px)) = 3 * n"
    unfolding length_wire_Ws2812 by simp
  then have "2 ^ 32 \<le> int (length (concat (map wire_Ws2812 ?px))) + 8"
    using assms by simp
  then show ?thesis by (rule packRawFrame_too_long [OF pd])
qed

section \<open>The claims\<close>

text \<open>
  Claim C1, as stated, fails: for the single pixel \<open>(255, 0, 0)\<close> the P9813 codec does
  not return the pixel list. \<^verbatim>\<open>unpackPixels\<close> returns one tuple of four components,
  the header byte first.
\<close>

theorem roundTrip_P9813_counterexample:
  "is_pixel [255, 0, 0] \<and> roundTrip P9813 [[255, 0, 0]] = Inr [[252, 0, 0, 255]]
   \<and> roundTrip P9813 [[255, 0, 0]] \<noteq> Inr [[255, 0, 0]]"
  by (simp add: is_pixel_def roundTrip_def packPixels_P9813_def pack_uint_def pixelHeader_def)

text \<open>
  Claim C1, amended: for every list of pixels with 8-bit channels, the P9813 codec's
  \<^verbatim>\<open>unpackPixels(packPixels(pixels))\<close> succeeds and returns one tuple per pixel, in input
  order; each tuple has four components, the first is the header byte of its pixel and the
  other three are the three channel values of its pixel (in an order that is not
  promised). The result equals \<open>pixels\<close> only when \<open>pixels\<close> is empty.
\<close>

theorem roundTrip_P9813_decoded:
  assumes "\<forall>p \<in> set pixels. is_pixel p"
  shows "\<exists>out. roundTrip P9813 pixels = Inr out \<and> list_all2 decoded_P9813 pixels out
           \<and> (out = pixels) = (pixels = [])"
proof -
  let ?out = "unpackPixels_P9813 (concat (map wire_P9813 pixels))"
  have rt: "roundTrip P9813 pixels = Inr ?out"
    using assms by (simp add: roundTrip_def packPixels_P9813_ok)
  have dec: "list_all2 decoded_P9813 pixels ?out"
    by (rule unpack_wire_P9813 [OF assms])
  have "(?out = pixels) = (pixels = [])"
  proof (cases pixels)
    case Nil
    then show ?thesis by simp
  next
    case (Cons p ps)
    with dec obtain t ts where out: "?out = t # ts" and t: "decoded_P9813 p t"
      by (auto simp: list_all2_Cons1)
    from Cons assms have "length p = 3" by (simp add: is_pixel_def)
    moreover from t have "length t = 4" by (simp add: decoded_P9813_def)
    ultimately have "t \<noteq> p" by auto
    with out Cons show ?thesis by simp
  qed
  with rt dec show ?thesis by blast
qed

text \<open>The amended claim C1 at the pixels \<open>(255, 0, 0)\<close> and \<open>(1, 2, 3)\<close>.\<close>

theorem roundTrip_P9813_decoded_witness:
  "is_pixel [255, 0, 0] \<and> is_pixel [1, 2, 3]
   \<and> (\<exists>out. roundTrip P9813 [[255, 0, 0], [1, 2, 3]] = Inr out
          \<and> list_all2 decoded_P9813 [[255, 0, 0], [1, 2, 3]] out
          \<and> out \<noteq> [[255, 0, 0], [1, 2, 3]])"
proof -
  have h: "\<forall>p \<in> set [[255, 0, 0], [1, 2, 3]]. is_pixel p"
    by (simp add: is_pixel_def)
  from roundTrip_P9813_decoded [OF h] h show ?thesis by simp
qed

text \<open>
  Claim C2 does not hold of the code: the counter is incremented without reduction
  modulo \<open>2 ^ 16\<close>. Starting from a new object, 65536 consecutive calls of
  \<^verbatim>\<open>packRawFrame\<close> with the frame of the \<^verbatim>\<open>simple\<close> command succeed and carry the sequence
  numbers 0 to 65535; they leave the counter at 65536, not at 0, and the next call raises
  \<^verbatim>\<open>struct.error\<close>, since 65536 does not fit the 16-bit field.
\<close>

theorem packRawFrames_no_wraparound:
  "\<exists>pkts s.
     packRawFrames Ws2812 65536 init [[255, 0, 0], [0, 255, 0], [0, 0, 255]] = Inr (pkts, s)
     \<and> length pkts = 65536
     \<and> map (\<lambda>p. be_int (take 2 (drop 8 p))) pkts = map int [0..<65536]
     \<and> seq s = 65536
     \<and> packRawFrame Ws2812 s [[255, 0, 0], [0, 255, 0], [0, 0, 255]] = Inl StructError"
proof -
  let ?px = "[[255, 0, 0], [0, 255, 0], [0, 0, 255]] :: pytuple list"
  let ?pd = "concat (map wire_Ws2812 ?px)"
  have pd: "packPixels Ws2812 ?px = Inr ?pd"
    by (rule packPixels_ok(1) [OF frame_pixels])
  have len: "int (length ?pd) + 8 < 2 ^ 32"
    by (simp add: wire_Ws2812_def)
  have run: "packRawFrames Ws2812 65536 init ?px =
      Inr (map (\<lambda>i. packet_of (seq init + int i) (flags init) ?pd) [0..<65536],
           init\<lparr>seq := seq init + int 65536\<rparr>)"
    by (rule packRawFrames_ok [OF pd len]) (simp_all add: init_def)
  have seqs: "map (\<lambda>p. be_int (take 2 (drop 8 p)))
        (map (\<lambda>i. packet_of (seq init + int i) (flags init) ?pd) [0..<n]) = map int [0..<n]"
    if "n \<le> 65536" for n
    using that by (simp add: seq_of_packet_of init_def del: upt_Suc)
  have fail: "packRawFrame Ws2812 (init\<lparr>seq := seq init + int 65536\<rparr>) ?px = Inl StructError"
    by (rule packRawFrame_seq_overflow [OF pd len]) (simp add: init_def)
  show ?thesis
    using run seqs [of 65536] fail by (simp add: init_def)
qed

text \<open>
  Claim C3, as stated, fails for a pixel list whose packet does not fit the 32-bit length
  field: with 1431655763 pixels the payload has \<open>2 ^ 32 + 1\<close> bytes and
  \<^verbatim>\<open>packRawFrame\<close> raises \<^verbatim>\<open>struct.error\<close>.
\<close>

theorem packRawFrame_Ws2812_counterexample:
  "is_pixel [0, 0, 0] \<and> seq init = 0 \<and> flags init = 0
   \<and> packRawFrame Ws2812 init (replicate 1431655763 [0, 0, 0]) = Inl StructError"
proof -
  have "packRawFrame Ws2812 init (replicate 1431655763 [0, 0, 0]) = Inl StructError"
    by (rule replicate_pixels_too_long) simp
  then show ?thesis by (simp add: is_pixel_def init_def)
qed

text \<open>
  Claim C3, amended: for every list of pixels with 8-bit channels whose payload fits the
  32-bit length field (\<open>3 * len(pixels) + 8 < 2 ^ 32\<close>), every sequence counter from 0
  to below \<open>2 ^ 16\<close> and flags that are a byte value, \<^verbatim>\<open>packRawFrame\<close> of the WS2812
  codec succeeds and advances the counter by exactly 1, and \<^verbatim>\<open>unpack\<close> of the packet (by
  any receiving object \<open>rcv\<close>) succeeds and yields the identical pixel list, message type
  \<open>0x10\<close>, a recomputed CRC-32 equal to the declared checksum, a declared length equal to
  the number of bytes after the 8-byte header, and the sequence number that the counter
  had before the build.
\<close>

theorem packRawFrame_unpack_Ws2812:
  assumes "\<forall>p \<in> set pixels. is_pixel p"
    and "0 \<le> seq self" "seq self < 2 ^ 16"
    and "0 \<le> flags self" "flags self \<le> 255"
    and "3 * int (length pixels) + 8 < 2 ^ 32"
  shows "\<exists>packetData self' r.
           packRawFrame Ws2812 self pixels = Inr (packetData, self')
         \<and> seq self' = seq self + 1
         \<and> unpack Ws2812 rcv packetData = Inr r
         \<and> fb r = Some pixels
         \<and> msgType r = Some 0x10
         \<and> localCrc r = payloadCrc r
         \<and> payloadCrc r = Some (calcCrc (drop 8 packetData))
         \<and> payloadLen r = Some (int (length packetData) - 8)
         \<and> payloadSeq r = Some (seq self)"
proof -
  let ?pd = "concat (map wire_Ws2812 pixels)"
  have pd: "packPixels Ws2812 pixels = Inr ?pd"
    by (rule packPixels_ok(1) [OF assms(1)])
  have len: "int (length ?pd) + 8 < 2 ^ 32"
    using assms(6) by (simp add: length_wire_Ws2812)
  have q: "seq self < 65536" using assms(3) by simp
  have build: "packRawFrame Ws2812 self pixels =
      Inr (packet_of (seq self) (flags self) ?pd, self\<lparr>seq := seq self + 1\<rparr>)"
    by (rule packRawFrame_ok [OF pd len assms(2) q assms(4,5)])
  have px: "unpackPixels_Ws2812 ?pd = pixels"
    by (rule unpack_wire_Ws2812 [OF assms(1)])
  show ?thesis
    unfolding build
    by (simp add: unpack_packet_of [OF len assms(2) q assms(4,5)] px drop8_packet_of FB_RAW_def)
qed

text \<open>
  The amended claim C3 for a new object and the pixels
  \<open>[(255,0,0), (0,255,0), (0,0,255)]\<close>.
\<close>

theorem packRawFrame_unpack_Ws2812_witness:
  "is_pixel [255, 0, 0] \<and> is_pixel [0, 255, 0] \<and> is_pixel [0, 0, 255]
   \<and> 0 \<le> seq init \<and> seq init < 2 ^ 16 \<and> 0 \<le> flags init \<and> flags init \<le> 255
   \<and> 3 * int (length [[255, 0, 0], [0, 255, 0], [0, 0, 255 :: int]]) + 8 < 2 ^ 32
   \<and> (\<exists>packetData self' r.
           packRawFrame Ws2812 init [[255, 0, 0], [0, 255, 0], [0, 0, 255]] = Inr (packetData, self')
         \<and> seq self' = seq init + 1
         \<and> unpack Ws2812 init packetData = Inr r
         \<and> fb r = Some [[255, 0, 0], [0, 255, 0], [0, 0, 255]]
         \<and> msgType r = Some 0x10
         \<and> localCrc r = payloadCrc r
         \<and> payloadCrc r = Some (calcCrc (drop 8 packetData))
         \<and> payloadLen r = Some (int (length packetData) - 8)
         \<and> payloadSeq r = Some (seq init))"
proof -
  have h1: "\<forall>p \<in> set [[255, 0, 0], [0, 255, 0], [0, 0, 255]]. is_pixel p"
    by (simp add: is_pixel_def)
  have h2: "0 \<le> seq init" and h3: "seq init < 2 ^ 16"
    and h4: "0 \<le> flags init" and h5: "flags init \<le> 255"
    by (simp_all add: init_def)
  have h6: "3 * int (length [[255, 0, 0], [0, 255, 0], [0, 0, 255 :: int]]) + 8 < 2 ^ 32"
    by simp
  have px: "is_pixel [255, 0, 0]" "is_pixel [0, 255, 0]" "is_pixel [0, 0, 255]"
    using h1 by simp_all
  from packRawFrame_unpack_Ws2812 [OF h1 h2 h3 h4 h5 h6, of init] px h2 h3 h4 h5 h6
  show ?thesis by blast
qed

text \<open>
  Claim C4: for every list of pixels with 8-bit channels, the WS2812 codec round-trips:
  \<^verbatim>\<open>unpackPixels(packPixels(pixels))\<close> succeeds and equals \<open>pixels\<close>.
\<close>

theorem roundTrip_Ws2812:
  assumes "\<forall>p \<in> set pixels. is_pixel p"
  shows "roundTrip Ws2812 pixels = Inr pixels"
  using assms by (simp add: roundTrip_def packPixels_Ws2812_ok unpack_wire_Ws2812)

text \<open>Claim C4 at the frame of the \<^verbatim>\<open>simple\<close> command.\<close>

theorem roundTrip_Ws2812_witness:
  "is_pixel [255, 0, 0] \<and> is_pixel [0, 255, 0] \<and> is_pixel [0, 0, 255]
   \<and> roundTrip Ws2812 [[255, 0, 0], [0, 255, 0], [0, 0, 255]]
       = Inr [[255, 0, 0], [0, 255, 0], [0, 0, 255]]"
proof -
  have h: "\<forall>p \<in> set [[255, 0, 0], [0, 255, 0], [0, 0, 255]]. is_pixel p"
    by (simp add: is_pixel_def)
  from roundTrip_Ws2812 [OF h] h show ?thesis by simp
qed

text \<open>
  Claim C5: for every buffer shorter than 16 bytes \<^verbatim>\<open>unpack\<close> raises \<^verbatim>\<open>struct.error\<close>;
  no pixel list and no recomputed checksum are assigned (the attributes \<open>fb\<close> and
  \<open>localCrc\<close> of the object are as before the call).
\<close>

theorem unpack_truncated:
  assumes "length packetData < 16"
  shows "\<exists>s'. unpack drv self packetData = Inl (StructError, s')
           \<and> fb s' = fb self \<and> localCrc s' = localCrc self"
  using unpack_short [OF assms, of drv self] by blast

text \<open>Claim C5 at a buffer of 15 bytes and a new object.\<close>

theorem unpack_truncated_witness:
  "length [0, 0, 0, 7, 1, 2, 3, 4, 0, 0, 0, 16, 0, 0, 3 :: byte] < 16
   \<and> (\<exists>s'. unpack P9813 init [0, 0, 0, 7, 1, 2, 3, 4, 0, 0, 0, 16, 0, 0, 3] = Inl (StructError, s')
           \<and> fb s' = fb init \<and> localCrc s' = localCrc init)"
proof -
  have h: "length [0, 0, 0, 7, 1, 2, 3, 4, 0, 0, 0, 16, 0, 0, 3 :: byte] < 16" by simp
  from unpack_truncated [OF h] h show ?thesis by blast
qed

text \<open>
  Claim C6: for every buffer of at least 16 bytes \<^verbatim>\<open>unpack\<close> returns without raising,
  whatever the declared length and checksum are, and the object then holds the received
  length, the declared length (big-endian bytes 0..3), the declared checksum (bytes 4..7),
  the sequence number (bytes 8..9), the flags (byte 10), the message type (byte 11), the
  framebuffer length field, the pixels decoded from byte 16 on, and the CRC-32 recomputed
  over the bytes from offset 8 on.
\<close>

theorem unpack_total:
  assumes "16 \<le> length packetData"
  shows "\<exists>r. unpack drv self packetData = Inr r
    \<and> rcvdLen r = Some (int (length packetData))
    \<and> payloadLen r = Some (uint (packetData ! 0) * 2 ^ 24 + uint (packetData ! 1) * 2 ^ 16
                            + uint (packetData ! 2) * 2 ^ 8 + uint (packetData ! 3))
    \<and> payloadCrc r = Some (uint (packetData ! 4) * 2 ^ 24 + uint (packetData ! 5) * 2 ^ 16
                            + uint (packetData ! 6) * 2 ^ 8 + uint (packetData ! 7))
    \<and> localCrc r = Some (calcCrc (drop 8 packetData))
    \<and> payloadSeq r = Some (uint (packetData ! 8) * 2 ^ 8 + uint (packetData ! 9))
    \<and> flags r = uint (packetData ! 10)
    \<and> msgType r = Some (uint (packetData ! 11))
    \<and> payloadFbLen r = Some [uint (packetData ! 12) * 2 ^ 24 + uint (packetData ! 13) * 2 ^ 16
                            + uint (packetData ! 14) * 2 ^ 8 + uint (packetData ! 15)]
    \<and> fb r = Some (unpackPixels drv (drop 16 packetData))
    \<and> seq r = seq self"
proof -
  have t0: "take 4 packetData = [packetData ! 0, packetData ! 1, packetData ! 2, packetData ! 3]"
    using assms take4_drop [of 0 packetData] by (simp add: eval_nat_numeral)
  have t4: "take 4 (drop 4 packetData) =
      [packetData ! 4, packetData ! 5, packetData ! 6, packetData ! 7]"
    using assms take4_drop [of 4 packetData] by (simp add: eval_nat_numeral)
  have t8: "take 2 (drop 8 packetData) = [packetData ! 8, packetData ! 9]"
    using assms take2_drop [of 8 packetData] by (simp add: eval_nat_numeral)
  have t12: "take 4 (drop 12 packetData) =
      [packetData ! 12, packetData ! 13, packetData ! 14, packetData ! 15]"
    using assms take4_drop [of 12 packetData] by (simp add: eval_nat_numeral)
  have len: "be_int (take 4 packetData) = uint (packetData ! 0) * 2 ^ 24
      + uint (packetData ! 1) * 2 ^ 16 + uint (packetData ! 2) * 2 ^ 8 + uint (packetData ! 3)"
    unfolding t0 by (rule be_int_4)
  have crc: "be_int (take 4 (drop 4 packetData)) = uint (packetData ! 4) * 2 ^ 24
      + uint (packetData ! 5) * 2 ^ 16 + uint (packetData ! 6) * 2 ^ 8 + uint (packetData ! 7)"
    unfolding t4 by (rule be_int_4)
  have sq: "be_int (take 2 (drop 8 packetData)) = uint (packetData ! 8) * 2 ^ 8 + uint (packetData ! 9)"
    unfolding t8 by (rule be_int_2)
  have fbl: "be_int (take 4 (drop 12 packetData)) = uint (packetData ! 12) * 2 ^ 24
      + uint (packetData ! 13) * 2 ^ 16 + uint (packetData ! 14) * 2 ^ 8 + uint (packetData ! 15)"
    unfolding t12 by (rule be_int_4)
  show ?thesis
    unfolding unpack_ok [OF assms] len crc sq fbl by simp
qed

text \<open>
  Claim C6 at a buffer of 19 bytes that declares a length of 99 and a checksum that was
  not computed: both are exposed, nothing is raised.
\<close>

theorem unpack_total_witness:
  "16 \<le> length [0, 0, 0, 99, 1, 2, 3, 4, 0, 5, 1, 16, 0, 0, 0, 3, 7, 8, 9 :: byte]
   \<and> (\<exists>r. unpack Ws2812 init [0, 0, 0, 99, 1, 2, 3, 4, 0, 5, 1, 16, 0, 0, 0, 3, 7, 8, 9] = Inr r
        \<and> rcvdLen r = Some 19 \<and> payloadLen r = Some 99 \<and> payloadCrc r = Some 16909060
        \<and> payloadSeq r = Some 5 \<and> flags r = 1 \<and> msgType r = Some 16
        \<and> payloadFbLen r = Some [3] \<and> fb r = Some [[8, 7, 9]])"
proof -
  have h: "16 \<le> length [0, 0, 0, 99, 1, 2, 3, 4, 0, 5, 1, 16, 0, 0, 0, 3, 7, 8, 9 :: byte]"
    by simp
  from unpack_total [OF h, of Ws2812 init] h show ?thesis
    by (auto simp: init_def)
qed

text \<open>
  Claim C7: for every list of pixels with 8-bit channels the P9813 codec emits exactly 4
  bytes per pixel, with the values \<open>[header, B, G, R]\<close> in input order, where the header
  is as the specification writes it (\<open>header_spec\<close>); for \<open>(R, G, B) = (0xFF, 0, 0)\<close>
  the packed bytes are \<open>[0xFC, 0x00, 0x00, 0xFF]\<close>.
\<close>

theorem packPixels_P9813_layout:
  assumes "\<forall>p \<in> set pixels. is_pixel p"
  shows "(\<exists>packed. packPixels P9813 pixels = Inr packed
            \<and> length packed = 4 * length pixels
            \<and> map uint packed =
                concat (map (\<lambda>p. [header_spec (p ! 0) (p ! 1) (p ! 2), p ! 2, p ! 1, p ! 0]) pixels))
         \<and> packPixels P9813 [[0xFF, 0x00, 0x00]] = Inr [0xFC, 0x00, 0x00, 0xFF]"
proof
  show "\<exists>packed. packPixels P9813 pixels = Inr packed
            \<and> length packed = 4 * length pixels
            \<and> map uint packed =
                concat (map (\<lambda>p. [header_spec (p ! 0) (p ! 1) (p ! 2), p ! 2, p ! 1, p ! 0]) pixels)"
    using assms uint_wire_P9813 [OF assms]
    by (simp add: packPixels_P9813_ok length_wire_P9813 pixelHeader_spec)
  show "packPixels P9813 [[0xFF, 0x00, 0x00]] = Inr [0xFC, 0x00, 0x00, 0xFF]"
    by (simp add: packPixels_P9813_def pack_uint_def pixelHeader_def)
qed

text \<open>Claim C7 at the pixels \<open>(18, 52, 86)\<close> and \<open>(200, 100, 50)\<close>.\<close>

theorem packPixels_P9813_layout_witness:
  "is_pixel [18, 52, 86] \<and> is_pixel [200, 100, 50]
   \<and> (\<exists>packed. packPixels P9813 [[18, 52, 86], [200, 100, 50]] = Inr packed
         \<and> length packed = 8 \<and> map uint packed = [239, 86, 52, 18, 248, 50, 100, 200])"
proof -
  have h: "\<forall>p \<in> set [[18, 52, 86], [200, 100, 50]]. is_pixel p"
    by (simp add: is_pixel_def)
  from packPixels_P9813_layout [OF h] h show ?thesis by (simp add: header_spec_def)
qed

text \<open>
  Claim C8: for every list of pixels with 8-bit channels the WS2812 codec emits exactly
  \<open>3 * len(pixels)\<close> bytes, with the values \<open>(G, R, B)\<close> for each pixel \<open>(R, G, B)\<close>
  in input order; \<^verbatim>\<open>packPixels([(1,2,3)])\<close> is the bytes \<open>[2, 1, 3]\<close>.
\<close>

theorem packPixels_Ws2812_layout:
  assumes "\<forall>p \<in> set pixels. is_pixel p"
  shows "(\<exists>packed. packPixels Ws2812 pixels = Inr packed
            \<and> length packed = 3 * length pixels
            \<and> map uint packed = concat (map (\<lambda>p. [p ! 1, p ! 0, p ! 2]) pixels))
         \<and> packPixels Ws2812 [[1, 2, 3]] = Inr [2, 1, 3]"
proof
  show "\<exists>packed. packPixels Ws2812 pixels = Inr packed
            \<and> length packed = 3 * length pixels
            \<and> map uint packed = concat (map (\<lambda>p. [p ! 1, p ! 0, p ! 2]) pixels)"
    using assms uint_wire_Ws2812 [OF assms]
    by (simp add: packPixels_Ws2812_ok length_wire_Ws2812)
  show "packPixels Ws2812 [[1, 2, 3]] = Inr [2, 1, 3]"
    by (simp add: packPixels_Ws2812_def pack_uint_def)
qed

text \<open>Claim C8 at the pixels \<open>(1, 2, 3)\<close> and \<open>(255, 128, 0)\<close>.\<close>

theorem packPixels_Ws2812_layout_witness:
  "is_pixel [1, 2, 3] \<and> is_pixel [255, 128, 0]
   \<and> (\<exists>packed. packPixels Ws2812 [[1, 2, 3], [255, 128, 0]] = Inr packed
         \<and> length packed = 6 \<and> map uint packed = [2, 1, 3, 128, 255, 0])"
proof -
  have h: "\<forall>p \<in> set [[1, 2, 3], [255, 128, 0]]. is_pixel p"
    by (simp add: is_pixel_def)
  from packPixels_Ws2812_layout [OF h] h show ?thesis by simp
qed

text \<open>
  Claim C9: for every packet that \<^verbatim>\<open>packRawFrame\<close> returns, every byte offset \<open>i\<close> from 8
  on and every bit \<open>k\<close> of that byte, \<^verbatim>\<open>unpack\<close> of the packet with that one bit flipped
  succeeds, the declared checksum is the one of the original packet, and the recomputed
  CRC-32 differs from it.
\<close>

theorem flipped_bit_detected:
  assumes "packRawFrame drv self pixels = Inr (pkt, self')"
    and "8 \<le> i" "i < length pkt" "k < 8"
  shows "\<exists>r. unpack drv rcv (flip_bit_at pkt i k) = Inr r
           \<and> payloadCrc r = Some (calcCrc (drop 8 pkt))
           \<and> localCrc r = Some (calcCrc (drop 8 (flip_bit_at pkt i k)))
           \<and> localCrc r \<noteq> payloadCrc r"
proof -
  from packRawFrame_inv [OF assms(1)] obtain payLoad
    where pkt: "pkt = be_bytes 4 (int (length payLoad)) @ be_bytes 4 (calcCrc payLoad) @ payLoad"
      and len: "8 \<le> length payLoad"
    by blast
  let ?P' = "flip_bit_at payLoad (i - 8) k"
  let ?d = "flip_bit_at pkt i k"
  have d: "?d = be_bytes 4 (int (length payLoad)) @ be_bytes 4 (calcCrc payLoad) @ ?P'"
    using assms(2)
    using flip_bit_at_append [of "be_bytes 4 (int (length payLoad)) @ be_bytes 4 (calcCrc payLoad)" i payLoad k]
    by (simp add: pkt)
  have i: "i - 8 < length payLoad" using assms(2,3) by (simp add: pkt)
  have long: "16 \<le> length ?d" using len by (simp add: pkt)
  have crc: "be_int (take 4 (drop 4 ?d)) = calcCrc payLoad"
    using calcCrc_range [of payLoad] by (simp add: d be_int_be_bytes)
  have body: "drop 8 ?d = ?P'" "drop 8 pkt = payLoad"
    by (simp_all add: d) (simp add: pkt)
  have "crc32 ?P' \<noteq> crc32 payLoad"
    by (rule crc32_flip [OF i assms(4)])
  then have ne: "calcCrc ?P' \<noteq> calcCrc payLoad"
    using calcCrc_inj by blast
  show ?thesis
    unfolding unpack_ok [OF long] crc body using ne by simp
qed

text \<open>
  Claim C9 at the packet built by a new object for the frame of the \<^verbatim>\<open>simple\<close> command,
  with bit 3 of the byte at offset 20 flipped.
\<close>

theorem flipped_bit_detected_witness:
  "\<exists>pkt self'.
      packRawFrame Ws2812 init [[255, 0, 0], [0, 255, 0], [0, 0, 255]] = Inr (pkt, self')
    \<and> length pkt = 25 \<and> (8::nat) \<le> 20 \<and> 20 < length pkt \<and> (3::nat) < 8
    \<and> (\<exists>r. unpack Ws2812 init (flip_bit_at pkt 20 3) = Inr r
          \<and> payloadCrc r = Some (calcCrc (drop 8 pkt))
          \<and> localCrc r = Some (calcCrc (drop 8 (flip_bit_at pkt 20 3)))
          \<and> localCrc r \<noteq> payloadCrc r)"
proof -
  let ?px = "[[255, 0, 0], [0, 255, 0], [0, 0, 255]] :: pytuple list"
  let ?pd = "concat (map wire_Ws2812 ?px)"
  let ?pkt = "packet_of (seq init) (flags init) ?pd"
  have pd: "packPixels Ws2812 ?px = Inr ?pd"
    by (simp add: packPixels_Ws2812_def pack_uint_def wire_Ws2812_def)
  have h1: "packRawFrame Ws2812 init ?px = Inr (?pkt, init\<lparr>seq := seq init + 1\<rparr>)"
    by (rule packRawFrame_ok [OF pd]) (simp_all add: init_def wire_Ws2812_def)
  have len: "length ?pkt = 25" by (simp add: wire_Ws2812_def)
  have h2: "(8::nat) \<le> 20" and h4: "(3::nat) < 8" by simp_all
  have h3: "20 < length ?pkt" unfolding len by simp
  from flipped_bit_detected [OF h1 h2 h3 h4, of init] h1 len h2 h3 h4
  show ?thesis by blast
qed

text \<open>
  Claim C10: for every buffer of at least 16 bytes, the decoded pixel list is
  \<^verbatim>\<open>unpackPixels\<close> of the bytes from offset 16 on and stays the same when the four bytes
  at offsets 12..15 are replaced by any four bytes \<open>w\<close>; the field itself is exposed as
  \<open>payloadFbLen\<close>, a tuple of one component (the big-endian value of those four bytes),
  not as an integer.
\<close>

theorem fbLen_field_ignored:
  assumes "16 \<le> length packetData" and "length w = 4"
  shows "\<exists>r r'. unpack drv self packetData = Inr r
           \<and> unpack drv self (take 12 packetData @ w @ drop 16 packetData) = Inr r'
           \<and> fb r = Some (unpackPixels drv (drop 16 packetData))
           \<and> fb r' = fb r
           \<and> payloadFbLen r = Some [be_int (take 4 (drop 12 packetData))]
           \<and> payloadFbLen r' = Some [be_int w]"
proof -
  let ?d' = "take 12 packetData @ w @ drop 16 packetData"
  have long: "16 \<le> length ?d'" using assms by simp
  have 1: "drop 16 ?d' = drop 16 packetData" "take 4 (drop 12 ?d') = w"
    using assms by simp_all
  show ?thesis
    unfolding unpack_ok [OF assms(1)] unpack_ok [OF long] 1 by simp
qed

text \<open>Claim C10 at a buffer of 19 bytes whose length field 3 is replaced by 200.\<close>

theorem fbLen_field_ignored_witness:
  "16 \<le> length [0, 0, 0, 99, 1, 2, 3, 4, 0, 5, 1, 16, 0, 0, 0, 3, 7, 8, 9 :: byte]
   \<and> length [0, 0, 0, 200 :: byte] = 4
   \<and> (\<exists>r r'. unpack Ws2812 init [0, 0, 0, 99, 1, 2, 3, 4, 0, 5, 1, 16, 0, 0, 0, 3, 7, 8, 9] = Inr r
          \<and> unpack Ws2812 init [0, 0, 0, 99, 1, 2, 3, 4, 0, 5, 1, 16, 0, 0, 0, 200, 7, 8, 9] = Inr r'
          \<and> fb r = Some [[8, 7, 9]] \<and> fb r' = fb r
          \<and> payloadFbLen r = Some [3] \<and> payloadFbLen r' = Some [200])"
proof -
  let ?d = "[0, 0, 0, 99, 1, 2, 3, 4, 0, 5, 1, 16, 0, 0, 0, 3, 7, 8, 9] :: byte list"
  let ?w = "[0, 0, 0, 200] :: byte list"
  have h1: "16 \<le> length ?d" by simp
  have h2: "length ?w = 4" by simp
  from fbLen_field_ignored [OF h1 h2, of Ws2812 init] obtain r r'
    where 1: "unpack Ws2812 init ?d = Inr r"
      and 2: "unpack Ws2812 init (take 12 ?d @ ?w @ drop 16 ?d) = Inr r'"
      and 3: "fb r = Some (unpackPixels Ws2812 (drop 16 ?d))"
      and 4: "fb r' = fb r"
      and 5: "payloadFbLen r = Some [be_int (take 4 (drop 12 ?d))]"
      and 6: "payloadFbLen r' = Some [be_int ?w]"
    by blast
  have b2: "unpack Ws2812 init [0, 0, 0, 99, 1, 2, 3, 4, 0, 5, 1, 16, 0, 0, 0, 200, 7, 8, 9] = Inr r'"
    using 2 by simp
  have b3: "fb r = Some [[8, 7, 9]]" using 3 by simp
  have b5: "payloadFbLen r = Some [3]" using 5 by (simp add: be_int_def)
  have b6: "payloadFbLen r' = Some [200]" using 6 by (simp add: be_int_def)
  from h1 h2 1 b2 b3 4 b5 b6 show ?thesis by blast
qed

end
